theory Spec2Isabelle
  imports Main "HOL-Library.Sublist" "HOL-Library.AList"
begin

section \<open>Requests, API errors and the query parser (src/backend/api/QueryParser.ts)\<close>

text \<open>
  An express request, as far as the parser reads it: the method (\<open>method\<close> is written
  \<open>reqMethod\<close>) and the two parameter tables. TypeScript types every parameter value as a
  string, and the model follows that type: a parameter is a string or absent.
\<close>

record Request =
  reqMethod :: string
  query :: "string \<rightharpoonup> string"
  body :: "string \<rightharpoonup> string"

text \<open>
  \<open>spec.apiError(code, message)\<close>: the code is kept as the string the source passes; the
  message is kept as the format string it was built from (one constructor per
  \<open>util.format\<close> call of the parser) together with the values formatted into it.
\<close>

datatype message =
    MissingArgument string
  | MustBeTrueOrFalse string
  | MustBeAnInteger string
  | MustBeGreaterOrEqual string int
  | MustBeLessOrEqual string int
  | MustBeAtLeastCharacters string nat
  | MustBeAtMostCharacters string nat
  | ListMustHaveAtLeast string nat
  | ListMustHaveAtMost string nat
  | EachItemMustBeAnInteger string
  | EachItemMustBeGreaterOrEqual string int
  | EachItemMustBeLessOrEqual string int

datatype ApiError = ApiError (code: string) (msg: message)

text \<open>A \<open>throw\<close> ends the rest of the function: sequencing on \<open>ApiError + 'a\<close>.\<close>

definition bindE :: "ApiError + 'a \<Rightarrow> ('a \<Rightarrow> ApiError + 'b) \<Rightarrow> ApiError + 'b" where
  "bindE m f = (case m of Inl e \<Rightarrow> Inl e | Inr x \<Rightarrow> f x)"

text \<open>
  A JavaScript number as the parser produces it: \<open>None\<close> is NaN, \<open>Some n\<close> the integer
  \<open>n\<close>. A digit string of more than 15 digits is rounded by JavaScript to the nearest
  double; the parser only compares such a number with its bounds, rounding is monotone and
  the bounds are doubles themselves, so every comparison comes out as on the exact integer.
  Every number the parser returns is below \<open>2^53\<close> for the default maximum and is exact.
\<close>

type_synonym jsnumber = "int option"

definition js_ge :: "jsnumber \<Rightarrow> int \<Rightarrow> bool" where
  "js_ge x m = (case x of None \<Rightarrow> False | Some n \<Rightarrow> n \<ge> m)"

definition js_le :: "jsnumber \<Rightarrow> int \<Rightarrow> bool" where
  "js_le x m = (case x of None \<Rightarrow> False | Some n \<Rightarrow> n \<le> m)"

text \<open>The value of a character as a digit of \<open>parseInt\<close>: 0-9, then a-z or A-Z for 10-35.\<close>

definition digitValue :: "char \<Rightarrow> nat option" where
  "digitValue c = (let n = (of_char c :: nat) in
     if 48 \<le> n \<and> n \<le> 57 then Some (n - 48)
     else if 97 \<le> n \<and> n \<le> 122 then Some (n - 87)
     else if 65 \<le> n \<and> n \<le> 90 then Some (n - 55)
     else None)"

definition isDecimalDigit :: "char \<Rightarrow> bool" where
  "isDecimalDigit c = (48 \<le> (of_char c :: nat) \<and> (of_char c :: nat) \<le> 57)"

text \<open>\<open>integerRegEx = /^[0-9]+$/\<close>, and \<open>integerRegEx.test\<close>: one or more characters, all of
  them decimal digits (without the \<open>m\<close> flag, \<open>$\<close> matches at the very end only).\<close>

definition integerRegEx_test :: "string \<Rightarrow> bool" where
  "integerRegEx_test s = (s \<noteq> [] \<and> list_all isDecimalDigit s)"

text \<open>The number a digit sequence denotes in a radix, most significant digit first.\<close>

definition radixValue :: "nat \<Rightarrow> string \<Rightarrow> nat" where
  "radixValue r s = foldl (\<lambda>acc c. r * acc + (case digitValue c of None \<Rightarrow> 0 | Some d \<Rightarrow> d)) 0 s"

text \<open>
  \<open>parseFloat\<close> on the strings \<open>getInteger\<close> gives it: they have passed \<open>integerRegEx\<close> and
  have at most ten characters, so the result is the decimal value, exactly.
\<close>

definition parseFloat :: "string \<Rightarrow> int" where
  "parseFloat s = int (radixValue 10 s)"

text \<open>
  The global \<open>parseInt(string, radix)\<close> of ECMAScript: radix 0 (or undefined) means 10, a
  radix below 2 or above 36 gives NaN, the longest prefix of digits of the radix is read,
  and NaN is the result when that prefix is empty. Leading white space, a sign and the
  \<open>0x\<close> prefix are not modelled: the parser calls \<open>parseInt\<close> only on strings that have
  passed \<open>integerRegEx\<close>.
\<close>

definition parseInt :: "string \<Rightarrow> nat \<Rightarrow> jsnumber" where
  "parseInt s radix =
    (let R = (if radix = 0 then 10 else radix) in
     if R < 2 \<or> R > 36 then None
     else
       (let Z = takeWhile (\<lambda>c. case digitValue c of None \<Rightarrow> False | Some d \<Rightarrow> d < R) s in
        if Z = [] then None else Some (int (radixValue R Z))))"

text \<open>\<open>String.prototype.split(",")\<close>: the pieces between the separators; the empty string
  gives one empty piece.\<close>

fun split :: "char \<Rightarrow> string \<Rightarrow> string list" where
  "split sep [] = [[]]"
| "split sep (c # cs) =
    (if c = sep then [] # split sep cs
     else (case split sep cs of [] \<Rightarrow> [[c]] | w # ws \<Rightarrow> (c # w) # ws))"

text \<open>\<open>lodash.map(list, f)\<close> calls \<open>f(value, index, list)\<close>; a two-parameter \<open>f\<close> sees the
  value and the index.\<close>

definition lodash_map :: "'a list \<Rightarrow> ('a \<Rightarrow> nat \<Rightarrow> 'b) \<Rightarrow> 'b list" where
  "lodash_map list f = map (\<lambda>(x, i). f x i) (zip list [0 ..< length list])"

subsection \<open>The private accessors\<close>

definition params :: "Request \<Rightarrow> (string \<rightharpoonup> string)" where
  "params req = (if reqMethod req = ''GET'' then query req else body req)"

definition has :: "Request \<Rightarrow> string \<Rightarrow> bool" where
  "has req name = (case params req name of None \<Rightarrow> False | Some v \<Rightarrow> v \<noteq> '''')"

definition get :: "Request \<Rightarrow> string \<Rightarrow> ApiError + string" where
  "get req name =
    (if \<not> has req name then Inl (ApiError ''ERR_ARGUMENT'' (MissingArgument name))
     else (case params req name of
             None \<Rightarrow> Inl (ApiError ''ERR_ARGUMENT'' (MissingArgument name))
           | Some v \<Rightarrow> Inr v))"

subsection \<open>The public parsers\<close>

definition getBoolean :: "Request \<Rightarrow> string \<Rightarrow> ApiError + bool" where
  "getBoolean req name =
    bindE (get req name) (\<lambda>v.
      if v = ''true'' then Inr True
      else if v = ''false'' then Inr False
      else Inl (ApiError ''ERR_ARGUMENT'' (MustBeTrueOrFalse name)))"

definition getString :: "Request \<Rightarrow> string \<Rightarrow> nat option \<Rightarrow> nat option \<Rightarrow> ApiError + string" where
  "getString req name minLength maxLength =
    (let minLength = (case minLength of None \<Rightarrow> 1 | Some m \<Rightarrow> m);
         maxLength = (case maxLength of None \<Rightarrow> 2147483647 | Some m \<Rightarrow> m)
     in bindE (get req name) (\<lambda>v.
          if length v < minLength then
            Inl (ApiError ''ERR_ARGUMENT'' (MustBeAtLeastCharacters name minLength))
          else if length v > maxLength then
            Inl (ApiError ''ERR_ARGUMENT'' (MustBeAtMostCharacters name maxLength))
          else Inr v))"

definition getInteger :: "Request \<Rightarrow> string \<Rightarrow> int option \<Rightarrow> int option \<Rightarrow> ApiError + int" where
  "getInteger req name minimum maximum =
    (let minimum = (case minimum of None \<Rightarrow> 0 | Some m \<Rightarrow> m);
         maximum = (case maximum of None \<Rightarrow> 2147483647 | Some m \<Rightarrow> m)
     in bindE (getString req name (Some 1) (Some 10)) (\<lambda>str.
          if \<not> integerRegEx_test str then
            Inl (ApiError ''ERR_ARGUMENT'' (MustBeAnInteger name))
          else
            (let num = parseFloat str in
             if num < minimum then Inl (ApiError ''ERR_ARGUMENT'' (MustBeGreaterOrEqual name minimum))
             else if num > maximum then Inl (ApiError ''ERR_ARGUMENT'' (MustBeLessOrEqual name maximum))
             else Inr num)))"

definition getIntegerList ::
  "Request \<Rightarrow> string \<Rightarrow> nat option \<Rightarrow> nat option \<Rightarrow> int option \<Rightarrow> int option \<Rightarrow> ApiError + int list" where
  "getIntegerList req name minListCount maxListCount minimum maximum =
    (let minListCount = (case minListCount of None \<Rightarrow> 1 | Some m \<Rightarrow> m);
         maxListCount = (case maxListCount of None \<Rightarrow> 2147483647 | Some m \<Rightarrow> m);
         minimum = (case minimum of None \<Rightarrow> 0 | Some m \<Rightarrow> m);
         maximum = (case maximum of None \<Rightarrow> 2147483647 | Some m \<Rightarrow> m)
     in bindE (get req name) (\<lambda>v.
          (let list = split CHR '','' v in
           if length list < minListCount then
             Inl (ApiError ''ERR_ARGUMENT'' (ListMustHaveAtLeast name minListCount))
           else if length list > maxListCount then
             Inl (ApiError ''ERR_ARGUMENT'' (ListMustHaveAtMost name maxListCount))
           else if \<not> list_all integerRegEx_test list then
             Inl (ApiError ''ERR_ARGUMENT'' (EachItemMustBeAnInteger name))
           else
             (let numbers = lodash_map list parseInt in
              if \<not> list_all (\<lambda>x. js_ge x minimum) numbers then
                Inl (ApiError ''ERR_ARGUMENT'' (EachItemMustBeGreaterOrEqual name minimum))
              else if \<not> list_all (\<lambda>x. js_le x maximum) numbers then
                Inl (ApiError ''ERR_ARGUMENT'' (EachItemMustBeLessOrEqual name maximum))
              else Inr (map the numbers)))))"

text \<open>
  In the last branch of \<open>getIntegerList\<close> every number has passed \<open>x >= min\<close>, which NaN
  fails, so \<open>map the\<close> reads no NaN there.
\<close>

section \<open>The routes\<close>

subsection \<open>/v2/waitForEvent\<close>

text \<open>
  An event as the route reads it (\<open>eventId\<close>); the kind and the payload are opaque to the
  code modelled here.
\<close>

record ('k, 'p) Event =
  eventId :: int
  kind :: 'k
  payload :: 'p

record ('k, 'p) WaitForEventResponse =
  lastEventId :: int
  events :: "('k, 'p) Event list"

text \<open>
  The route. \<open>server.dispatcher\<close> is not among the sources: its \<open>waitForEvent\<close> is a
  parameter, a function from the cursor and the dispatcher's state to the events the
  awaited promise resolves with and the state it leaves. The route returns its response
  or the error thrown, and the dispatcher's state afterwards.
\<close>

definition waitForEvent_route ::
  "(int \<Rightarrow> 'd \<Rightarrow> ('k, 'p) Event list \<times> 'd) \<Rightarrow> Request \<Rightarrow> 'd
    \<Rightarrow> (ApiError + ('k, 'p) WaitForEventResponse) \<times> 'd" where
  "waitForEvent_route dispatcher_waitForEvent req d =
    (case getInteger req ''lastEventId'' None None of
       Inl e \<Rightarrow> (Inl e, d)
     | Inr lastEventId' \<Rightarrow>
         (case dispatcher_waitForEvent lastEventId' d of
            (events', d') \<Rightarrow>
              if length events' > 0 then
                (Inr \<lparr>lastEventId = eventId (events' ! (length events' - 1)), events = events'\<rparr>, d')
              else
                (Inr \<lparr>lastEventId = lastEventId', events = events'\<rparr>, d')))"

subsection \<open>/v2/clientData/setCategoryFilters\<close>

text \<open>\<open>spec.ModerationFlag\<close>, with the members \<open>QueryParser.getModerationFlag\<close> names.\<close>

datatype ModerationFlag =
  OnTopic | NotWorkSafe | Stupid | PoliticalReligious | Tangent | Informative | Nuked

text \<open>Lines 25 to 39 of the route: the arguments it computes for the connector.\<close>

definition setCategoryFilters_arguments :: "Request \<Rightarrow> ApiError + (string \<times> ModerationFlag list)" where
  "setCategoryFilters_arguments req =
    bindE (getString req ''username'' (Some 1) (Some 50)) (\<lambda>username.
    (let filters = [] in
     bindE (getBoolean req ''nws'') (\<lambda>nws.
     (let filters = (if nws then filters @ [NotWorkSafe] else filters) in
      bindE (getBoolean req ''stupid'') (\<lambda>stupid.
      (let filters = (if stupid then filters @ [Stupid] else filters) in
       bindE (getBoolean req ''political'') (\<lambda>political.
       (let filters = (if political then filters @ [PoliticalReligious] else filters) in
        bindE (getBoolean req ''tangent'') (\<lambda>tangent.
        (let filters = (if tangent then filters @ [Tangent] else filters) in
         bindE (getBoolean req ''informative'') (\<lambda>informative.
         (let filters = (if informative then filters @ [Informative] else filters) in
          Inr (username, filters)))))))))))))"

text \<open>
  The route. The client data connector is not among the sources: its
  \<open>setModerationFlagFilters\<close> is a parameter, from the user name, the filters and the
  connector's state to success or the rejection, and the state it leaves.
\<close>

definition setCategoryFilters_route ::
  "(string \<Rightarrow> ModerationFlag list \<Rightarrow> 'c \<Rightarrow> (ApiError + unit) \<times> 'c) \<Rightarrow> Request \<Rightarrow> 'c
    \<Rightarrow> (ApiError + string) \<times> 'c" where
  "setCategoryFilters_route setModerationFlagFilters req c =
    (case setCategoryFilters_arguments req of
       Inl e \<Rightarrow> (Inl e, c)
     | Inr (username, filters) \<Rightarrow>
         (case setModerationFlagFilters username filters c of
            (Inl e, c') \<Rightarrow> (Inl e, c')
          | (Inr u, c') \<Rightarrow> (Inr ''success'', c')))"

section \<open>Dictionary (collections/index)\<close>

text \<open>
  Modelled from the spec: the \<open>Dictionary\<close> class of \<open>collections/index\<close> is not among the
  sources; the spec speaks of it only as a mapping from keys to values. It is modelled as
  an association list with one entry per key: \<open>set\<close> replaces the value of a key that is
  there and adds the key otherwise, \<open>fromArray\<close> sets every element of the array in turn
  under its key, \<open>lookup\<close> gives the value of a key or the default (\<open>null\<close> in every call
  of the sources, here \<open>None\<close>), \<open>keys\<close> and \<open>values\<close> list what is stored.
\<close>

type_synonym ('k, 'v) Dictionary = "('k \<times> 'v) list"

definition Dictionary_set :: "('k, 'v) Dictionary \<Rightarrow> 'k \<Rightarrow> 'v \<Rightarrow> ('k, 'v) Dictionary" where
  "Dictionary_set dict k v = AList.update k v dict"

definition fromArray :: "'a list \<Rightarrow> ('a \<Rightarrow> 'k) \<Rightarrow> ('a \<Rightarrow> 'v) \<Rightarrow> ('k, 'v) Dictionary" where
  "fromArray array keySelector valueSelector =
    foldl (\<lambda>dict x. Dictionary_set dict (keySelector x) (valueSelector x)) [] array"

definition lookup :: "('k, 'v) Dictionary \<Rightarrow> 'k \<Rightarrow> 'v option \<Rightarrow> 'v option" where
  "lookup dict k defaultValue = (case map_of dict k of None \<Rightarrow> defaultValue | Some v \<Rightarrow> Some v)"

definition keys :: "('k, 'v) Dictionary \<Rightarrow> 'k list" where
  "keys dict = map fst dict"

definition values_of :: "('k, 'v) Dictionary \<Rightarrow> 'v list" where
  "values_of dict = map snd dict"

section \<open>The memory account connector\<close>

record ('d, 'l) MemoryUserAccount =
  username :: string
  password :: string
  registrationDate :: 'd
  level :: 'l

text \<open>\<open>new spec.UserCredentials(username, password, level)\<close>.\<close>

datatype 'l UserCredentials = UserCredentials string string 'l

text \<open>The connector's only field is \<open>_accounts\<close>; the constructor fills it.\<close>

definition MemoryAccountConnector ::
  "('d, 'l) MemoryUserAccount list \<Rightarrow> (string, ('d, 'l) MemoryUserAccount) Dictionary" where
  "MemoryAccountConnector initialAccounts = fromArray initialAccounts username (\<lambda>x. x)"

text \<open>
  \<open>String.prototype.toLowerCase\<close> on ASCII: the letters A to Z go to a to z, every other
  character stays. (JavaScript also lowers letters beyond ASCII; user names with such
  letters are outside this model.)
\<close>

definition toLowerCase_char :: "char \<Rightarrow> char" where
  "toLowerCase_char c =
    (case map_of (zip ''ABCDEFGHIJKLMNOPQRSTUVWXYZ'' ''abcdefghijklmnopqrstuvwxyz'') c of
       None \<Rightarrow> c | Some l \<Rightarrow> l)"

definition toLowerCase :: "string \<Rightarrow> string" where
  "toLowerCase s = map toLowerCase_char s"

text \<open>An async method resolves with the value the model returns; \<open>null\<close> is \<open>None\<close>.\<close>

definition tryLogin ::
  "(string, ('d, 'l) MemoryUserAccount) Dictionary \<Rightarrow> string \<Rightarrow> string \<Rightarrow> 'l UserCredentials option" where
  "tryLogin accounts username' password' =
    (case lookup accounts username' None of
       None \<Rightarrow> None
     | Some account \<Rightarrow>
         if password account = password' then
           Some (UserCredentials username' password' (level account))
         else None)"

definition userExists :: "(string, ('d, 'l) MemoryUserAccount) Dictionary \<Rightarrow> string \<Rightarrow> bool" where
  "userExists accounts username' =
    (let usernameLower = toLowerCase username' in
     list_ex (\<lambda>x. toLowerCase x = usernameLower) (keys accounts))"

section \<open>Posts and the /v2/getPost route\<close>

text \<open>
  Modelled from the spec: the \<open>Post\<close> type of \<open>spec/index\<close> is not among the sources. The
  fields are those of the spec's data model; \<open>id\<close> and \<open>body\<close> are written \<open>postId\<close> and
  \<open>postBody\<close>.
\<close>

record Post =
  postId :: int
  threadId :: int
  parentId :: "int option"
  authorUsername :: string
  postBody :: string
  postedAt :: int
  moderationFlags :: "ModerationFlag set"

text \<open>
  Modelled from the spec: \<open>api.removeNukedSubthreads\<close> is not among the sources (the route
  only calls it); the spec describes it as \<open>pruneNukedSubtrees\<close>. The posts are visited in
  the order given, parents before children. \<open>hidden\<close> holds the ids of the posts visited so
  far whose children are dropped: the posts that carry \<open>Nuked\<close> and the posts that were
  dropped. A post is dropped when its parent is in \<open>hidden\<close> and kept otherwise, also when
  it carries \<open>Nuked\<close> itself.
\<close>

fun pruneWalk :: "int set \<Rightarrow> Post list \<Rightarrow> Post list" where
  "pruneWalk hidden [] = []"
| "pruneWalk hidden (p # ps) =
    (case parentId p of
       None \<Rightarrow>
         p # pruneWalk (if Nuked \<in> moderationFlags p then insert (postId p) hidden else hidden) ps
     | Some parent \<Rightarrow>
         if parent \<in> hidden then pruneWalk (insert (postId p) hidden) ps
         else p # pruneWalk (if Nuked \<in> moderationFlags p then insert (postId p) hidden else hidden) ps)"

definition removeNukedSubthreads :: "Post list \<Rightarrow> Post list" where
  "removeNukedSubthreads posts = pruneWalk {} posts"

text \<open>
  The words of the spec the walk is compared with. \<open>ancestor posts a p\<close>: \<open>a\<close> is a post of
  the sequence that is the parent of \<open>p\<close>, or the parent of an ancestor of \<open>p\<close>.
\<close>

inductive ancestor :: "Post list \<Rightarrow> Post \<Rightarrow> Post \<Rightarrow> bool" for posts :: "Post list" where
  parent: "a \<in> set posts \<Longrightarrow> parentId p = Some (postId a) \<Longrightarrow> ancestor posts a p"
| grand: "ancestor posts a q \<Longrightarrow> q \<in> set posts \<Longrightarrow> parentId p = Some (postId q)
    \<Longrightarrow> ancestor posts a p"

definition underNuked :: "Post list \<Rightarrow> Post \<Rightarrow> bool" where
  "underNuked posts p = (\<exists>a. ancestor posts a p \<and> Nuked \<in> moderationFlags a)"

text \<open>Parent-before-child order: no post is the parent of itself or of a post listed
  before it.\<close>

fun parentsFirst :: "Post list \<Rightarrow> bool" where
  "parentsFirst [] = True"
| "parentsFirst (p # ps) =
    (list_all (\<lambda>q. parentId p \<noteq> Some (postId q)) (p # ps) \<and> parentsFirst ps)"

text \<open>
  The thread of the spec's example: \<open>A\<close> the root (id 1), \<open>B\<close> a child of \<open>A\<close> carrying
  \<open>Nuked\<close> (id 2), \<open>C\<close> a child of \<open>B\<close> (id 3), \<open>D\<close> a child of \<open>A\<close> (id 4).
\<close>

definition examplePost :: "int \<Rightarrow> int option \<Rightarrow> ModerationFlag set \<Rightarrow> Post" where
  "examplePost i parent flags =
    \<lparr>postId = i, threadId = 1, parentId = parent, authorUsername = ''author'',
     postBody = ''text'', postedAt = i, moderationFlags = flags\<rparr>"

definition exampleThread :: "Post list" where
  "exampleThread =
    [examplePost 1 None {}, examplePost 2 (Some 1) {Nuked},
     examplePost 3 (Some 2) {}, examplePost 4 (Some 1) {}]"

text \<open>
  Lines 29 to 39 of the route, from the parsed ids on. The thread connector and
  \<open>spec.postToHtml\<close> are not among the sources and are parameters, \<open>removeNukedSubthreads\<close>
  is a parameter as well; \<open>getThreads\<close> resolves with posts or rejects.
\<close>

definition getPost_posts ::
  "(int list \<Rightarrow> ApiError + Post list) \<Rightarrow> (Post list \<Rightarrow> Post list) \<Rightarrow> (Post \<Rightarrow> 'h)
    \<Rightarrow> int list \<Rightarrow> ApiError + 'h list" where
  "getPost_posts getThreads removeNuked postToHtml ids =
    bindE (getThreads ids) (\<lambda>threadPosts.
      (let unnukedThreadPosts = removeNuked threadPosts;
           postsById = fromArray unnukedThreadPosts postId (\<lambda>x. x)
       in Inr (map postToHtml
                (map the
                  (filter (\<lambda>x. x \<noteq> None)
                    (map (\<lambda>x. lookup postsById x None) ids))))))"

definition getPost_route ::
  "(int list \<Rightarrow> ApiError + Post list) \<Rightarrow> (Post list \<Rightarrow> Post list) \<Rightarrow> (Post \<Rightarrow> 'h)
    \<Rightarrow> Request \<Rightarrow> ApiError + 'h list" where
  "getPost_route getThreads removeNuked postToHtml req =
    bindE (getIntegerList req ''id'' (Some 1) (Some 50) (Some 1) None)
      (getPost_posts getThreads removeNuked postToHtml)"

section \<open>The event log and the dispatcher\<close>

text \<open>
  Modelled from the spec: the event log is not among the sources. The log is the retained
  events, oldest first, and the last id assigned; \<open>L\<close> is its fixed capacity. \<open>append\<close>
  (here \<open>append_log\<close>) assigns the id \<open>lastId + 1\<close>, appends, and evicts the oldest entry when
  the log is over capacity; \<open>eventsSince\<close> gives the retained events with an id above the
  cursor, oldest first; \<open>latestId\<close> is the high-water mark, 0 for the empty log.
\<close>

record ('k, 'p) EventLog =
  entries :: "('k, 'p) Event list"
  lastId :: int

definition emptyLog :: "('k, 'p) EventLog" where
  "emptyLog = \<lparr>entries = [], lastId = 0\<rparr>"

definition evict :: "nat \<Rightarrow> ('k, 'p) EventLog \<Rightarrow> ('k, 'p) EventLog" where
  "evict L lg = (if length (entries lg) > L then lg\<lparr>entries := tl (entries lg)\<rparr> else lg)"

definition append_log :: "nat \<Rightarrow> 'k \<Rightarrow> 'p \<Rightarrow> ('k, 'p) EventLog \<Rightarrow> ('k, 'p) Event \<times> ('k, 'p) EventLog" where
  "append_log L k p lg =
    (let e = \<lparr>eventId = lastId lg + 1, kind = k, payload = p\<rparr>
     in (e, evict L \<lparr>entries = entries lg @ [e], lastId = eventId e\<rparr>))"

definition eventsSince :: "int \<Rightarrow> ('k, 'p) EventLog \<Rightarrow> ('k, 'p) Event list" where
  "eventsSince cursor' lg = filter (\<lambda>e. eventId e > cursor') (entries lg)"

definition latestId :: "('k, 'p) EventLog \<Rightarrow> int" where
  "latestId lg = lastId lg"

text \<open>The log after a sequence of appends to the empty log, given as the kinds and payloads.\<close>

definition appendAll :: "nat \<Rightarrow> ('k \<times> 'p) list \<Rightarrow> ('k, 'p) EventLog \<Rightarrow> ('k, 'p) EventLog" where
  "appendAll L kps lg = foldl (\<lambda>l (k, p). snd (append_log L k p l)) lg kps"

text \<open>
  Modelled from the spec: the dispatcher is not among the sources. Its state is the log
  and the waiter registry. Requests are interleaved cooperatively and each operation runs
  to completion, so each is a function on the state. \<open>waitForEvent\<close> takes the caller's
  completion handle and the time, and either resolves at once or registers a waiter;
  \<open>publish\<close> appends and resolves every waiter behind the new event with its own slice;
  \<open>timeout\<close> resolves a registered waiter with no events. The cursor reaches the dispatcher
  validated by the route.
\<close>

record Waiter =
  cursor :: int
  handle :: nat
  registeredAt :: int

record ('k, 'p) Dispatcher =
  log :: "('k, 'p) EventLog"
  waiters :: "Waiter list"

datatype ('k, 'p) Outcome = Resolved "('k, 'p) Event list" | Suspended

definition waitForEvent ::
  "int \<Rightarrow> nat \<Rightarrow> int \<Rightarrow> ('k, 'p) Dispatcher \<Rightarrow> ('k, 'p) Outcome \<times> ('k, 'p) Dispatcher" where
  "waitForEvent cursor' h now st =
    (let history = eventsSince cursor' (log st) in
     if history \<noteq> [] then (Resolved history, st)
     else (Suspended,
           st\<lparr>waiters := waiters st @ [\<lparr>cursor = cursor', handle = h, registeredAt = now\<rparr>]\<rparr>))"

definition publish ::
  "nat \<Rightarrow> 'k \<Rightarrow> 'p \<Rightarrow> ('k, 'p) Dispatcher
    \<Rightarrow> ('k, 'p) Event \<times> (nat \<times> ('k, 'p) Event list) list \<times> ('k, 'p) Dispatcher" where
  "publish L k p st =
    (case append_log L k p (log st) of
       (e, lg) \<Rightarrow>
         (e,
          map (\<lambda>w. (handle w, eventsSince (cursor w) lg))
            (filter (\<lambda>w. cursor w < latestId lg) (waiters st)),
          st\<lparr>log := lg, waiters := filter (\<lambda>w. \<not> cursor w < latestId lg) (waiters st)\<rparr>))"

definition timeout ::
  "nat \<Rightarrow> ('k, 'p) Dispatcher \<Rightarrow> (nat \<times> ('k, 'p) Event list) list \<times> ('k, 'p) Dispatcher" where
  "timeout h st =
    (map (\<lambda>w. (handle w, [])) (filter (\<lambda>w. handle w = h) (waiters st)),
     st\<lparr>waiters := filter (\<lambda>w. handle w \<noteq> h) (waiters st)\<rparr>)"

section \<open>What the query parser accepts\<close>

lemma getInteger_Inr_iff:
  "getInteger req name None None = Inr n \<longleftrightarrow>
     (\<exists>s. params req name = Some s \<and> s \<noteq> [] \<and> length s \<le> 10 \<and> list_all isDecimalDigit s
          \<and> radixValue 10 s \<le> 2147483647 \<and> n = int (radixValue 10 s))"
  by (auto simp: getInteger_def getString_def get_def has_def bindE_def integerRegEx_test_def
        parseFloat_def Let_def split: option.splits if_splits)

lemma getInteger_error_code:
  "getInteger req name mn mx = Inl e \<Longrightarrow> code e = ''ERR_ARGUMENT''"
  by (auto simp: getInteger_def getString_def get_def has_def bindE_def Let_def
        split: option.splits if_splits)

section \<open>The /v2/waitForEvent route\<close>

text \<open>
  C4. A request whose \<open>lastEventId\<close> parameter is not a cursor the parser accepts (it is
  missing or empty, has more than ten characters, has a character that is not a decimal
  digit, such as the sign of a negative number, or denotes a number above 2147483647) is
  answered with an \<open>ERR_ARGUMENT\<close> error, and the dispatcher's state is the one before the
  request whatever the dispatcher's \<open>waitForEvent\<close> would have done to it: the dispatcher
  has not been called and no waiter has been registered.
\<close>

theorem waitForEvent_route_invalid_cursor:
  assumes "\<not> (\<exists>s. params req ''lastEventId'' = Some s \<and> s \<noteq> [] \<and> length s \<le> 10
              \<and> list_all isDecimalDigit s \<and> radixValue 10 s \<le> 2147483647)"
  shows "\<exists>m. waitForEvent_route w req d = (Inl (ApiError ''ERR_ARGUMENT'' m), d)"
proof (cases "getInteger req ''lastEventId'' None None")
  case (Inl e)
  from getInteger_error_code[OF Inl] obtain m where "e = ApiError ''ERR_ARGUMENT'' m"
    by (cases e) auto
  with Inl show ?thesis by (simp add: waitForEvent_route_def)
next
  case (Inr n)
  with assms show ?thesis unfolding getInteger_Inr_iff by blast
qed

theorem waitForEvent_route_invalid_cursor_witness:
  "\<not> (\<exists>s. params \<lparr>reqMethod = ''GET'', query = [''lastEventId'' \<mapsto> ''-1''], body = Map.empty\<rparr>
              ''lastEventId'' = Some s \<and> s \<noteq> [] \<and> length s \<le> 10
            \<and> list_all isDecimalDigit s \<and> radixValue 10 s \<le> 2147483647)
   \<and> (\<exists>m. waitForEvent_route (\<lambda>n d. ([] :: (unit, unit) Event list, Suc d))
          \<lparr>reqMethod = ''GET'', query = [''lastEventId'' \<mapsto> ''-1''], body = Map.empty\<rparr> (0::nat)
        = (Inl (ApiError ''ERR_ARGUMENT'' m), 0))"
proof -
  have h: "\<not> (\<exists>s. params \<lparr>reqMethod = ''GET'', query = [''lastEventId'' \<mapsto> ''-1''], body = Map.empty\<rparr>
              ''lastEventId'' = Some s \<and> s \<noteq> [] \<and> length s \<le> 10
            \<and> list_all isDecimalDigit s \<and> radixValue 10 s \<le> 2147483647)"
    by (simp add: params_def isDecimalDigit_def)
  from h waitForEvent_route_invalid_cursor[OF h] show ?thesis by (rule conjI)
qed

text \<open>
  C8. When the route answers with a response, the parser has accepted the caller's
  \<open>lastEventId\<close> as a number \<open>n\<close>, the response's events are those the dispatcher resolved
  with for \<open>n\<close>, and the response's \<open>lastEventId\<close> is \<open>n\<close> itself when there are no events and
  the \<open>eventId\<close> of the last event otherwise.
\<close>

theorem waitForEvent_route_lastEventId:
  assumes "waitForEvent_route w req d = (Inr resp, d')"
  shows "\<exists>n. getInteger req ''lastEventId'' None None = Inr n \<and> w n d = (events resp, d')
           \<and> (if events resp = [] then lastEventId resp = n
               else lastEventId resp = eventId (last (events resp)))"
  using assms
  by (auto simp: waitForEvent_route_def last_conv_nth split: sum.splits prod.splits if_splits)

theorem waitForEvent_route_lastEventId_witness:
  "waitForEvent_route
      (\<lambda>n d. ([\<lparr>eventId = 6, kind = (), payload = ()\<rparr>, \<lparr>eventId = 7, kind = (), payload = ()\<rparr>], Suc d))
      \<lparr>reqMethod = ''GET'', query = [''lastEventId'' \<mapsto> ''5''], body = Map.empty\<rparr> (0::nat)
     = (Inr \<lparr>lastEventId = 7,
             events = [\<lparr>eventId = 6, kind = (), payload = ()\<rparr>, \<lparr>eventId = 7, kind = (), payload = ()\<rparr>]\<rparr>,
        1)
   \<and> (\<exists>n. getInteger \<lparr>reqMethod = ''GET'', query = [''lastEventId'' \<mapsto> ''5''], body = Map.empty\<rparr>
              ''lastEventId'' None None = Inr n
          \<and> (7::int) = eventId (last [\<lparr>eventId = 6, kind = (), payload = ()\<rparr>,
                                      \<lparr>eventId = 7, kind = (), payload = ()\<rparr>]))"
proof -
  have r: "waitForEvent_route
      (\<lambda>n d. ([\<lparr>eventId = 6, kind = (), payload = ()\<rparr>, \<lparr>eventId = 7, kind = (), payload = ()\<rparr>], Suc d))
      \<lparr>reqMethod = ''GET'', query = [''lastEventId'' \<mapsto> ''5''], body = Map.empty\<rparr> (0::nat)
     = (Inr \<lparr>lastEventId = 7,
             events = [\<lparr>eventId = 6, kind = (), payload = ()\<rparr>, \<lparr>eventId = 7, kind = (), payload = ()\<rparr>]\<rparr>,
        1)"
    by (simp add: waitForEvent_route_def getInteger_def getString_def get_def has_def params_def
          bindE_def integerRegEx_test_def isDecimalDigit_def parseFloat_def radixValue_def
          digitValue_def)
  from waitForEvent_route_lastEventId[OF r] r show ?thesis by auto
qed

section \<open>The /v2/clientData/setCategoryFilters route\<close>

lemma get_error_code: "get req name = Inl e \<Longrightarrow> \<exists>m. e = ApiError ''ERR_ARGUMENT'' m"
  by (auto simp: get_def split: if_splits option.splits)

lemma getBoolean_error_code:
  "getBoolean req name = Inl e \<Longrightarrow> \<exists>m. e = ApiError ''ERR_ARGUMENT'' m"
  by (auto simp: getBoolean_def get_def bindE_def split: if_splits option.splits)

lemma getString_error_code:
  "getString req name mn mx = Inl e \<Longrightarrow> \<exists>m. e = ApiError ''ERR_ARGUMENT'' m"
  by (auto simp: getString_def get_def bindE_def Let_def split: if_splits option.splits)

lemma getBoolean_missing:
  "\<not> has req name \<Longrightarrow> getBoolean req name = Inl (ApiError ''ERR_ARGUMENT'' (MissingArgument name))"
  by (simp add: getBoolean_def get_def bindE_def)

lemma bindE_Inr_iff: "bindE m f = Inr y \<longleftrightarrow> (\<exists>x. m = Inr x \<and> f x = Inr y)"
  by (cases m) (auto simp: bindE_def)

lemma bindE_Inl_iff: "bindE m f = Inl e \<longleftrightarrow> (m = Inl e \<or> (\<exists>x. m = Inr x \<and> f x = Inl e))"
  by (cases m) (auto simp: bindE_def)

lemma setCategoryFilters_arguments_Inr:
  assumes "setCategoryFilters_arguments req = Inr (u, fs)"
  shows "\<exists>nws stupid political tangent informative.
           getString req ''username'' (Some 1) (Some 50) = Inr u
         \<and> getBoolean req ''nws'' = Inr nws
         \<and> getBoolean req ''stupid'' = Inr stupid
         \<and> getBoolean req ''political'' = Inr political
         \<and> getBoolean req ''tangent'' = Inr tangent
         \<and> getBoolean req ''informative'' = Inr informative
         \<and> fs = (if nws then [NotWorkSafe] else []) @ (if stupid then [Stupid] else [])
              @ (if political then [PoliticalReligious] else []) @ (if tangent then [Tangent] else [])
              @ (if informative then [Informative] else [])"
  using assms unfolding setCategoryFilters_arguments_def Let_def bindE_Inr_iff
  by (elim exE conjE) (simp split: if_splits)

lemma setCategoryFilters_arguments_Inl:
  assumes "setCategoryFilters_arguments req = Inl e"
  shows "\<exists>m. e = ApiError ''ERR_ARGUMENT'' m"
  using assms unfolding setCategoryFilters_arguments_def Let_def bindE_Inl_iff
  by (elim exE conjE disjE) (auto dest: getBoolean_error_code getString_error_code)

lemma setCategoryFilters_arguments_missing:
  assumes "\<not> has req n" and "n \<in> set [''nws'', ''stupid'', ''political'', ''tangent'', ''informative'']"
  shows "\<exists>e. setCategoryFilters_arguments req = Inl e"
proof (cases "setCategoryFilters_arguments req")
  case (Inl e) then show ?thesis by simp
next
  case (Inr r)
  obtain u fs where "r = (u, fs)" by (cases r)
  with Inr have "setCategoryFilters_arguments req = Inr (u, fs)" by simp
  from setCategoryFilters_arguments_Inr[OF this] obtain b where "getBoolean req n = Inr b"
    using assms(2) by auto
  with getBoolean_missing[OF assms(1)] show ?thesis by simp
qed

lemma filters_subseq:
  "subseq ((if nws then [NotWorkSafe] else []) @ (if stupid then [Stupid] else [])
              @ (if political then [PoliticalReligious] else []) @ (if tangent then [Tangent] else [])
              @ (if informative then [Informative] else []))
     [NotWorkSafe, Stupid, PoliticalReligious, Tangent, Informative]"
  by (cases nws; cases stupid; cases political; cases tangent; cases informative) simp_all

lemma filters_flags:
  "set ((if nws then [NotWorkSafe] else []) @ (if stupid then [Stupid] else [])
              @ (if political then [PoliticalReligious] else []) @ (if tangent then [Tangent] else [])
              @ (if informative then [Informative] else []))
    \<subseteq> {NotWorkSafe, Stupid, PoliticalReligious, Tangent, Informative}"
  by auto


text \<open>
  C9. When the route answers with success, it has called \<open>setModerationFlagFilters\<close> with
  the user name and a filter list that is a subsequence of NotWorkSafe, Stupid,
  PoliticalReligious, Tangent, Informative in that order and holds neither Nuked nor
  OnTopic. When one of the parameters nws, stupid, political, tangent, informative is
  missing, the route answers with an \<open>ERR_ARGUMENT\<close> error and the connector's state is the
  one before the request, whatever the connector would have done: it has not been called.
\<close>

theorem setCategoryFilters_route_filters:
  "(\<forall>r c'. setCategoryFilters_route conn req c = (Inr r, c') \<longrightarrow>
      (\<exists>u fs. setCategoryFilters_arguments req = Inr (u, fs) \<and> conn u fs c = (Inr (), c')
         \<and> subseq fs [NotWorkSafe, Stupid, PoliticalReligious, Tangent, Informative]
         \<and> Nuked \<notin> set fs \<and> OnTopic \<notin> set fs))
   \<and> ((\<exists>n \<in> set [''nws'', ''stupid'', ''political'', ''tangent'', ''informative'']. \<not> has req n) \<longrightarrow>
        (\<exists>m. setCategoryFilters_route conn req c = (Inl (ApiError ''ERR_ARGUMENT'' m), c)))"
proof (intro conjI allI impI)
  fix r c'
  assume ok: "setCategoryFilters_route conn req c = (Inr r, c')"
  then obtain u fs where a: "setCategoryFilters_arguments req = Inr (u, fs)"
    and cc: "conn u fs c = (Inr (), c')"
    by (auto simp: setCategoryFilters_route_def split: sum.splits prod.splits)
  from setCategoryFilters_arguments_Inr[OF a] obtain b1 b2 b3 b4 b5 where
    fs: "fs = (if b1 then [NotWorkSafe] else []) @ (if b2 then [Stupid] else [])
              @ (if b3 then [PoliticalReligious] else []) @ (if b4 then [Tangent] else [])
              @ (if b5 then [Informative] else [])" by blast
  have "subseq fs [NotWorkSafe, Stupid, PoliticalReligious, Tangent, Informative]"
    unfolding fs by (rule filters_subseq)
  moreover have "set fs \<subseteq> {NotWorkSafe, Stupid, PoliticalReligious, Tangent, Informative}"
    unfolding fs by (rule filters_flags)
  then have "Nuked \<notin> set fs \<and> OnTopic \<notin> set fs" by auto
  ultimately show "\<exists>u fs. setCategoryFilters_arguments req = Inr (u, fs) \<and> conn u fs c = (Inr (), c')
         \<and> subseq fs [NotWorkSafe, Stupid, PoliticalReligious, Tangent, Informative]
         \<and> Nuked \<notin> set fs \<and> OnTopic \<notin> set fs"
    using a cc by blast
next
  assume "\<exists>n \<in> set [''nws'', ''stupid'', ''political'', ''tangent'', ''informative'']. \<not> has req n"
  then obtain n where n: "n \<in> set [''nws'', ''stupid'', ''political'', ''tangent'', ''informative'']"
    and h: "\<not> has req n" by blast
  from setCategoryFilters_arguments_missing[OF h n] obtain e where
    e: "setCategoryFilters_arguments req = Inl e" by blast
  from setCategoryFilters_arguments_Inl[OF e] obtain m where "e = ApiError ''ERR_ARGUMENT'' m" by blast
  with e show "\<exists>m. setCategoryFilters_route conn req c = (Inl (ApiError ''ERR_ARGUMENT'' m), c)"
    by (simp add: setCategoryFilters_route_def)
qed

theorem setCategoryFilters_route_filters_witness:
  "setCategoryFilters_route (\<lambda>u fs calls. (Inr (), calls @ [(u, fs)]))
      \<lparr>reqMethod = ''POST'', query = Map.empty,
       body = [''username'' \<mapsto> ''bob'', ''nws'' \<mapsto> ''true'', ''stupid'' \<mapsto> ''false'',
               ''political'' \<mapsto> ''true'', ''tangent'' \<mapsto> ''false'', ''informative'' \<mapsto> ''false'']\<rparr>
      []
     = (Inr ''success'', [(''bob'', [NotWorkSafe, PoliticalReligious])])
   \<and> (\<exists>u fs. setCategoryFilters_arguments
      \<lparr>reqMethod = ''POST'', query = Map.empty,
       body = [''username'' \<mapsto> ''bob'', ''nws'' \<mapsto> ''true'', ''stupid'' \<mapsto> ''false'',
               ''political'' \<mapsto> ''true'', ''tangent'' \<mapsto> ''false'', ''informative'' \<mapsto> ''false'']\<rparr>
         = Inr (u, fs)
        \<and> subseq fs [NotWorkSafe, Stupid, PoliticalReligious, Tangent, Informative]
        \<and> Nuked \<notin> set fs \<and> OnTopic \<notin> set fs)
   \<and> (\<exists>m. setCategoryFilters_route (\<lambda>u fs calls. (Inr (), calls @ [(u, fs)]))
      \<lparr>reqMethod = ''POST'', query = Map.empty,
       body = [''username'' \<mapsto> ''bob'', ''nws'' \<mapsto> ''true'', ''stupid'' \<mapsto> ''false'',
               ''political'' \<mapsto> ''true'', ''informative'' \<mapsto> ''false'']\<rparr>
      ([] :: (string \<times> ModerationFlag list) list)
     = (Inl (ApiError ''ERR_ARGUMENT'' m), []))"
proof -
  let ?conn = "\<lambda>u fs calls. (Inr (), calls @ [(u :: string, fs :: ModerationFlag list)])"
  let ?ok = "\<lparr>reqMethod = ''POST'', query = Map.empty,
       body = [''username'' \<mapsto> ''bob'', ''nws'' \<mapsto> ''true'', ''stupid'' \<mapsto> ''false'',
               ''political'' \<mapsto> ''true'', ''tangent'' \<mapsto> ''false'', ''informative'' \<mapsto> ''false'']\<rparr>"
  let ?missing = "\<lparr>reqMethod = ''POST'', query = Map.empty,
       body = [''username'' \<mapsto> ''bob'', ''nws'' \<mapsto> ''true'', ''stupid'' \<mapsto> ''false'',
               ''political'' \<mapsto> ''true'', ''informative'' \<mapsto> ''false'']\<rparr>"
  have args: "setCategoryFilters_arguments ?ok = Inr (''bob'', [NotWorkSafe, PoliticalReligious])"
    by (simp add: setCategoryFilters_arguments_def getString_def getBoolean_def get_def has_def
          params_def bindE_def)
  then have r: "setCategoryFilters_route ?conn ?ok [] = (Inr ''success'', [(''bob'', [NotWorkSafe, PoliticalReligious])])"
    by (simp add: setCategoryFilters_route_def)
  note t = setCategoryFilters_route_filters[of ?conn ?ok "[]"]
  from t[THEN conjunct1, rule_format, OF r]
  have a: "\<exists>u fs. setCategoryFilters_arguments ?ok = Inr (u, fs)
        \<and> subseq fs [NotWorkSafe, Stupid, PoliticalReligious, Tangent, Informative]
        \<and> Nuked \<notin> set fs \<and> OnTopic \<notin> set fs"
    by (elim exE conjE) (intro exI conjI)
  have "\<not> has ?missing ''tangent''" by (simp add: has_def params_def)
  then have h: "\<exists>n \<in> set [''nws'', ''stupid'', ''political'', ''tangent'', ''informative'']. \<not> has ?missing n"
    by simp
  note t' = setCategoryFilters_route_filters[of ?conn ?missing "[]"]
  from t'[THEN conjunct2, rule_format, OF h]
  have m: "\<exists>m. setCategoryFilters_route ?conn ?missing [] = (Inl (ApiError ''ERR_ARGUMENT'' m), [])" .
  from r a m show ?thesis by (intro conjI)
qed

section \<open>The dictionary and the memory account connector\<close>

lemma set_update_subset: "set (AList.update k v al) \<subseteq> insert (k, v) (set al)"
  by (induction al) auto

lemma update_fresh: "k \<notin> fst ` set al \<Longrightarrow> AList.update k v al = al @ [(k, v)]"
  by (induction al) auto

lemma foldl_Dictionary_set:
  assumes "distinct (map fst d0)"
  shows "distinct (map fst (foldl (\<lambda>dict x. Dictionary_set dict (f x) (g x)) d0 xs))
       \<and> set (foldl (\<lambda>dict x. Dictionary_set dict (f x) (g x)) d0 xs)
            \<subseteq> set d0 \<union> (\<lambda>x. (f x, g x)) ` set xs
       \<and> fst ` set (foldl (\<lambda>dict x. Dictionary_set dict (f x) (g x)) d0 xs)
            = fst ` set d0 \<union> f ` set xs"
  using assms
proof (induction xs arbitrary: d0)
  case Nil
  then show ?case by simp
next
  case (Cons x xs)
  have d: "distinct (map fst (Dictionary_set d0 (f x) (g x)))"
    using Cons.prems by (simp add: Dictionary_set_def distinct_update)
  have s: "set (Dictionary_set d0 (f x) (g x)) \<subseteq> insert (f x, g x) (set d0)"
    by (simp add: Dictionary_set_def set_update_subset)
  have k: "fst ` set (Dictionary_set d0 (f x) (g x)) = insert (f x) (fst ` set d0)"
    by (simp add: Dictionary_set_def dom_update)
  from Cons.IH[OF d] s k show ?case by auto
qed

lemma fromArray_entries:
  "distinct (map fst (fromArray xs f g))
   \<and> set (fromArray xs f g) \<subseteq> (\<lambda>x. (f x, g x)) ` set xs
   \<and> fst ` set (fromArray xs f g) = f ` set xs"
  using foldl_Dictionary_set[of "[]" f g xs] by (simp add: fromArray_def)

lemma lookup_fromArray_Some:
  assumes "lookup (fromArray xs f g) k None = Some v"
  shows "\<exists>x \<in> set xs. f x = k \<and> g x = v"
proof -
  from assms have "map_of (fromArray xs f g) k = Some v"
    by (simp add: lookup_def split: option.splits)
  then have "(k, v) \<in> set (fromArray xs f g)" by (rule map_of_SomeD)
  with fromArray_entries[of xs f g] show ?thesis by auto
qed

lemma lookup_fromArray_None:
  "lookup (fromArray xs f g) k None = None \<longleftrightarrow> k \<notin> f ` set xs"
proof -
  have "lookup (fromArray xs f g) k None = None \<longleftrightarrow> map_of (fromArray xs f g) k = None"
    by (simp add: lookup_def split: option.splits)
  also have "\<dots> \<longleftrightarrow> k \<notin> fst ` set (fromArray xs f g)"
    by (rule map_of_eq_None_iff)
  also have "fst ` set (fromArray xs f g) = f ` set xs"
    using fromArray_entries[of xs f g] by simp
  finally show ?thesis .
qed

lemma fromArray_distinct_keys:
  assumes "distinct (map f xs)"
  shows "fromArray xs f g = map (\<lambda>x. (f x, g x)) xs"
proof -
  have "distinct (map f (ys @ xs)) \<Longrightarrow>
        foldl (\<lambda>dict x. Dictionary_set dict (f x) (g x)) (map (\<lambda>x. (f x, g x)) ys) xs
          = map (\<lambda>x. (f x, g x)) (ys @ xs)" for ys
  proof (induction xs arbitrary: ys)
    case Nil then show ?case by simp
  next
    case (Cons x xs)
    have "f x \<notin> fst ` set (map (\<lambda>x. (f x, g x)) ys)" using Cons.prems by (auto simp: image_iff)
    then have "Dictionary_set (map (\<lambda>x. (f x, g x)) ys) (f x) (g x) = map (\<lambda>x. (f x, g x)) (ys @ [x])"
      by (simp add: Dictionary_set_def update_fresh)
    with Cons.IH[of "ys @ [x]"] Cons.prems show ?case by simp
  qed
  from this[of "[]"] assms show ?thesis by (simp add: fromArray_def)
qed

lemma stored_username:
  "(k, a) \<in> set (MemoryAccountConnector init) \<Longrightarrow> k = username a \<and> a \<in> set init"
  using fromArray_entries[of init username "\<lambda>x. x"]
  by (auto simp: MemoryAccountConnector_def)

lemma keys_MemoryAccountConnector:
  "keys (MemoryAccountConnector init) = map username (values_of (MemoryAccountConnector init))"
  by (auto simp: keys_def values_of_def dest: stored_username)

lemma userExists_iff:
  "userExists (MemoryAccountConnector init) u \<longleftrightarrow>
     (\<exists>a \<in> set (values_of (MemoryAccountConnector init)). toLowerCase (username a) = toLowerCase u)"
  by (simp add: userExists_def keys_MemoryAccountConnector list_ex_iff)

lemma tryLogin_iff:
  "tryLogin (MemoryAccountConnector init) u p \<noteq> None \<longleftrightarrow>
     (\<exists>a \<in> set (values_of (MemoryAccountConnector init)). username a = u \<and> password a = p)"
proof
  assume "tryLogin (MemoryAccountConnector init) u p \<noteq> None"
  then obtain a where m: "map_of (MemoryAccountConnector init) u = Some a" and p: "password a = p"
    by (auto simp: tryLogin_def lookup_def split: option.splits if_splits)
  from map_of_SomeD[OF m] have i: "(u, a) \<in> set (MemoryAccountConnector init)" .
  from stored_username[OF i] i p
  show "\<exists>a \<in> set (values_of (MemoryAccountConnector init)). username a = u \<and> password a = p"
    by (force simp: values_of_def)
next
  assume "\<exists>a \<in> set (values_of (MemoryAccountConnector init)). username a = u \<and> password a = p"
  then obtain k a where i: "(k, a) \<in> set (MemoryAccountConnector init)"
    and u: "username a = u" and p: "password a = p"
    by (auto simp: values_of_def)
  from stored_username[OF i] u have "k = u" by simp
  moreover have "distinct (map fst (MemoryAccountConnector init))"
    using fromArray_entries[of init username "\<lambda>x. x"] by (simp add: MemoryAccountConnector_def)
  ultimately have "map_of (MemoryAccountConnector init) u = Some a" using i by simp
  with p show "tryLogin (MemoryAccountConnector init) u p \<noteq> None"
    by (simp add: tryLogin_def lookup_def)
qed

lemma values_of_MemoryAccountConnector:
  "distinct (map username init) \<Longrightarrow> values_of (MemoryAccountConnector init) = init"
  by (simp add: MemoryAccountConnector_def fromArray_distinct_keys values_of_def comp_def)

text \<open>
  C10. For the connector built from any initial accounts: \<open>userExists\<close> resolves true exactly
  when a stored account has the user name up to the case of its letters; \<open>tryLogin\<close>
  resolves credentials exactly when a stored account has the very user name and the very
  password; and there are a stored account and a spelling of its user name for which
  \<open>userExists\<close> resolves true while \<open>tryLogin\<close> with the account's password resolves null.
\<close>

theorem tryLogin_userExists_case:
  "(userExists (MemoryAccountConnector init) u \<longleftrightarrow>
      (\<exists>a \<in> set (values_of (MemoryAccountConnector init)). toLowerCase (username a) = toLowerCase u))
   \<and> (tryLogin (MemoryAccountConnector init) u p \<noteq> None \<longleftrightarrow>
      (\<exists>a \<in> set (values_of (MemoryAccountConnector init)). username a = u \<and> password a = p))
   \<and> (\<exists>accounts a u'.
         a \<in> set (values_of (MemoryAccountConnector (accounts :: ('d, 'l) MemoryUserAccount list)))
       \<and> toLowerCase u' = toLowerCase (username a)
       \<and> userExists (MemoryAccountConnector accounts) u'
       \<and> tryLogin (MemoryAccountConnector accounts) u' (password a) = None)"
proof (intro conjI)
  show "userExists (MemoryAccountConnector init) u \<longleftrightarrow>
      (\<exists>a \<in> set (values_of (MemoryAccountConnector init)). toLowerCase (username a) = toLowerCase u)"
    by (rule userExists_iff)
  show "tryLogin (MemoryAccountConnector init) u p \<noteq> None \<longleftrightarrow>
      (\<exists>a \<in> set (values_of (MemoryAccountConnector init)). username a = u \<and> password a = p)"
    by (rule tryLogin_iff)
  obtain d :: 'd and l :: 'l where True by simp
  let ?a = "\<lparr>username = ''Bob'', password = ''pw'', registrationDate = d, level = l\<rparr>"
  have v: "values_of (MemoryAccountConnector [?a]) = [?a]"
    by (simp add: MemoryAccountConnector_def fromArray_def Dictionary_set_def values_of_def)
  have k: "keys (MemoryAccountConnector [?a]) = [''Bob'']"
    by (simp add: MemoryAccountConnector_def fromArray_def Dictionary_set_def keys_def)
  have lc: "toLowerCase ''bob'' = toLowerCase ''Bob''"
    by (simp add: toLowerCase_def toLowerCase_char_def)
  have e: "userExists (MemoryAccountConnector [?a]) ''bob''"
    unfolding userExists_def k Let_def lc by simp
  have t: "tryLogin (MemoryAccountConnector [?a]) ''bob'' ''pw'' = None"
    by (simp add: tryLogin_def lookup_def MemoryAccountConnector_def fromArray_def Dictionary_set_def)
  have "?a \<in> set (values_of (MemoryAccountConnector [?a]))
       \<and> toLowerCase ''bob'' = toLowerCase (username ?a)
       \<and> userExists (MemoryAccountConnector [?a]) ''bob''
       \<and> tryLogin (MemoryAccountConnector [?a]) ''bob'' (password ?a) = None"
    using v lc e t by simp
  then show "\<exists>accounts a u'.
         a \<in> set (values_of (MemoryAccountConnector (accounts :: ('d, 'l) MemoryUserAccount list)))
       \<and> toLowerCase u' = toLowerCase (username a)
       \<and> userExists (MemoryAccountConnector accounts) u'
       \<and> tryLogin (MemoryAccountConnector accounts) u' (password a) = None"
    by (intro exI)
qed


theorem tryLogin_userExists_case_witness:
  "userExists
     (MemoryAccountConnector [\<lparr>username = ''Bob'', password = ''pw'', registrationDate = (), level = ()\<rparr>])
     ''BOB''
   \<and> tryLogin
     (MemoryAccountConnector [\<lparr>username = ''Bob'', password = ''pw'', registrationDate = (), level = ()\<rparr>])
     ''BOB'' ''pw'' = None
   \<and> tryLogin
     (MemoryAccountConnector [\<lparr>username = ''Bob'', password = ''pw'', registrationDate = (), level = ()\<rparr>])
     ''Bob'' ''pw'' \<noteq> None"
proof -
  let ?a = "\<lparr>username = ''Bob'', password = ''pw'', registrationDate = (), level = ()\<rparr>"
  have v: "values_of (MemoryAccountConnector [?a]) = [?a]"
    by (simp add: MemoryAccountConnector_def fromArray_def Dictionary_set_def values_of_def)
  have lc: "toLowerCase ''Bob'' = toLowerCase ''BOB''"
    by (simp add: toLowerCase_def toLowerCase_char_def)
  note t = tryLogin_userExists_case[of "[?a]" "''BOB''" "''pw''"]
  from t have "userExists (MemoryAccountConnector [?a]) ''BOB'' \<longleftrightarrow>
      (\<exists>a \<in> set (values_of (MemoryAccountConnector [?a])). toLowerCase (username a) = toLowerCase ''BOB'')"
    by (rule conjunct1)
  then have 1: "userExists (MemoryAccountConnector [?a]) ''BOB''"
    unfolding v using lc by simp
  from t have "tryLogin (MemoryAccountConnector [?a]) ''BOB'' ''pw'' \<noteq> None \<longleftrightarrow>
      (\<exists>a \<in> set (values_of (MemoryAccountConnector [?a])). username a = ''BOB'' \<and> password a = ''pw'')"
    by (rule conjunct2[THEN conjunct1])
  then have 2: "tryLogin (MemoryAccountConnector [?a]) ''BOB'' ''pw'' = None"
    unfolding v by simp
  note t' = tryLogin_userExists_case[of "[?a]" "''Bob''" "''pw''"]
  from t' have "tryLogin (MemoryAccountConnector [?a]) ''Bob'' ''pw'' \<noteq> None \<longleftrightarrow>
      (\<exists>a \<in> set (values_of (MemoryAccountConnector [?a])). username a = ''Bob'' \<and> password a = ''pw'')"
    by (rule conjunct2[THEN conjunct1])
  then have 3: "tryLogin (MemoryAccountConnector [?a]) ''Bob'' ''pw'' \<noteq> None"
    unfolding v by simp
  from 1 2 3 show ?thesis by (intro conjI)
qed

section \<open>The id list of /v2/getPost\<close>

lemma lodash_map_parseInt_second:
  assumes "2 \<le> length list"
  shows "\<exists>n0 rest. lodash_map list parseInt = n0 # None # rest"
proof -
  from assms obtain x0 x1 xs where l: "list = x0 # x1 # xs"
    by (cases list; cases "tl list") auto
  have "[0 ..< length list] = 0 # [Suc 0 ..< length list]"
    by (rule upt_conv_Cons) (simp add: l)
  also have "[Suc 0 ..< length list] = Suc 0 # [Suc (Suc 0) ..< length list]"
    by (rule upt_conv_Cons) (simp add: l)
  finally have u: "[0 ..< length list] = 0 # Suc 0 # [Suc (Suc 0) ..< length list]" .
  have "lodash_map list parseInt
      = parseInt x0 0 # parseInt x1 (Suc 0)
          # map (\<lambda>(x, i). parseInt x i) (zip xs [Suc (Suc 0) ..< length list])"
    unfolding lodash_map_def u by (simp add: l)
  moreover have "parseInt x1 (Suc 0) = None" by (simp add: parseInt_def)
  ultimately show ?thesis by simp
qed

lemma get_Inl_code: "get req name = Inl e \<Longrightarrow> e = ApiError ''ERR_ARGUMENT'' (MissingArgument name)"
  by (simp add: get_def split: if_splits option.splits)

lemma getIntegerList_error_code:
  assumes "getIntegerList req name a b c d = Inl e"
  shows "\<exists>m. e = ApiError ''ERR_ARGUMENT'' m"
proof (cases "get req name")
  case (Inl e')
  with assms have "e = e'" by (simp add: getIntegerList_def bindE_def Let_def)
  with get_Inl_code[OF Inl] show ?thesis by simp
next
  case (Inr v)
  with assms show ?thesis
    by (auto simp: getIntegerList_def bindE_def Let_def split: if_splits)
qed

lemma getIntegerList_second_item_rejected:
  assumes "get req name = Inr v" and "2 \<le> length (split CHR '','' v)"
  shows "\<exists>m. getIntegerList req name a b c d = Inl (ApiError ''ERR_ARGUMENT'' m)"
proof -
  from lodash_map_parseInt_second[OF assms(2)] obtain n0 rest where
    "lodash_map (split CHR '','' v) parseInt = n0 # None # rest" by blast
  then have "\<not> list_all (\<lambda>x. js_ge x m) (lodash_map (split CHR '','' v) parseInt)" for m
    by (simp add: js_ge_def)
  then have "\<exists>e. getIntegerList req name a b c d = Inl e"
    using assms(1) by (simp add: getIntegerList_def bindE_def Let_def)
  then show ?thesis using getIntegerList_error_code by blast
qed


lemma split_no_separator: "sep \<notin> set s \<Longrightarrow> split sep s = [s]"
  by (induction s) auto

lemma isDecimalDigit_digitValue: "isDecimalDigit c \<Longrightarrow> \<exists>d. digitValue c = Some d \<and> d < 10"
  by (auto simp: isDecimalDigit_def digitValue_def Let_def)

lemma isDecimalDigit_not_comma: "isDecimalDigit c \<Longrightarrow> c \<noteq> CHR '',''"
  by (auto simp: isDecimalDigit_def)

lemma getIntegerList_single:
  assumes "params req name = Some v" and "v \<noteq> []" and "list_all isDecimalDigit v"
    and "1 \<le> radixValue 10 v" and "radixValue 10 v \<le> 2147483647"
  shows "getIntegerList req name (Some 1) (Some 50) (Some 1) None = Inr [int (radixValue 10 v)]"
proof -
  have g: "get req name = Inr v" using assms(1,2) by (simp add: get_def has_def)
  have "CHR '','' \<notin> set v" using assms(3) isDecimalDigit_not_comma by (auto simp: list_all_iff)
  then have s: "split CHR '','' v = [v]" by (rule split_no_separator)
  have tw: "takeWhile (\<lambda>c. case digitValue c of None \<Rightarrow> False | Some d \<Rightarrow> d < 10) v = v"
  proof -
    have "\<And>c. c \<in> set v \<Longrightarrow> (case digitValue c of None \<Rightarrow> False | Some d \<Rightarrow> d < 10)"
    proof -
      fix c assume "c \<in> set v"
      with assms(3) have "isDecimalDigit c" by (simp add: list_all_iff)
      from isDecimalDigit_digitValue[OF this] show "case digitValue c of None \<Rightarrow> False | Some d \<Rightarrow> d < 10"
        by auto
    qed
    then show ?thesis by (simp add: takeWhile_eq_all_conv)
  qed
  have p: "parseInt v 0 = Some (int (radixValue 10 v))"
    using assms(2) by (simp add: parseInt_def tw)
  show ?thesis
    using assms(2-5) by (simp add: getIntegerList_def g s bindE_def integerRegEx_test_def
        lodash_map_def p js_ge_def js_le_def)
qed

text \<open>
  C6. The request \<open>id=1,2\<close> is a list of two decimal ids, each at least 1.
  \<open>getIntegerList\<close> hands the items to \<open>parseInt\<close> through \<open>lodash.map\<close>, which passes the
  index of the item as the radix: the second item is read in radix 1, which gives NaN, and
  NaN fails the comparison with the minimum. The parser throws \<open>ERR_ARGUMENT\<close> and the
  route fails as a whole. (\<open>getIntegerList_second_item_rejected\<close> shows the same for every
  list of two or more items, \<open>getIntegerList_single\<close> that a single id is parsed to its
  value.)
\<close>

theorem getPost_two_ids_rejected:
  "getIntegerList \<lparr>reqMethod = ''GET'', query = [''id'' \<mapsto> ''1,2''], body = Map.empty\<rparr>
      ''id'' (Some 1) (Some 50) (Some 1) None
     = Inl (ApiError ''ERR_ARGUMENT'' (EachItemMustBeGreaterOrEqual ''id'' 1))
   \<and> getPost_route getThreads removeNuked postToHtml
        \<lparr>reqMethod = ''GET'', query = [''id'' \<mapsto> ''1,2''], body = Map.empty\<rparr>
     = Inl (ApiError ''ERR_ARGUMENT'' (EachItemMustBeGreaterOrEqual ''id'' 1))"
proof -
  have p: "getIntegerList \<lparr>reqMethod = ''GET'', query = [''id'' \<mapsto> ''1,2''], body = Map.empty\<rparr>
      ''id'' (Some 1) (Some 50) (Some 1) None
     = Inl (ApiError ''ERR_ARGUMENT'' (EachItemMustBeGreaterOrEqual ''id'' 1))"
    by (simp add: getIntegerList_def get_def has_def params_def bindE_def integerRegEx_test_def
          isDecimalDigit_def lodash_map_def parseInt_def js_ge_def digitValue_def radixValue_def
          upt_rec)
  then show ?thesis by (simp add: getPost_route_def bindE_def)
qed

section \<open>The read path of /v2/getPost\<close>

lemma found_ids:
  "map f (map the (filter (\<lambda>x. x \<noteq> None) (map (\<lambda>i. lookup (fromArray ps f (\<lambda>x. x)) i None) ids)))
     = filter (\<lambda>i. i \<in> f ` set ps) ids"
proof (induction ids)
  case Nil
  then show ?case by simp
next
  case (Cons i ids)
  show ?case
  proof (cases "lookup (fromArray ps f (\<lambda>x. x)) i None")
    case None
    then have "i \<notin> f ` set ps" by (simp add: lookup_fromArray_None)
    with None Cons.IH show ?thesis by simp
  next
    case (Some p)
    from lookup_fromArray_Some[OF Some] have "f p = i" "p \<in> set ps" by auto
    with Some Cons.IH show ?thesis by auto
  qed
qed

lemma found_posts:
  "set (map the (filter (\<lambda>x. x \<noteq> None) (map (\<lambda>i. lookup (fromArray ps f (\<lambda>x. x)) i None) ids)))
     \<subseteq> set ps"
  by (auto dest: lookup_fromArray_Some)


text \<open>
  C5. When the thread connector resolves with posts, the read path of the route (lines 29
  to 39) raises no error and returns the converted posts \<open>found\<close>, whose ids are the
  requested ids, in the order requested, without those that are not the id of a post left
  after the nuked subthreads are removed; every post returned is one of the posts left.
  A requested id with no post is left out.
\<close>

theorem getPost_posts_requested_order:
  assumes "getThreads ids = Inr threadPosts"
  shows "\<exists>found. getPost_posts getThreads removeNuked postToHtml ids = Inr (map postToHtml found)
           \<and> map postId found = filter (\<lambda>i. i \<in> postId ` set (removeNuked threadPosts)) ids
           \<and> subseq (map postId found) ids
           \<and> set found \<subseteq> set (removeNuked threadPosts)"
proof -
  let ?found = "map the (filter (\<lambda>x. x \<noteq> None)
     (map (\<lambda>i. lookup (fromArray (removeNuked threadPosts) postId (\<lambda>x. x)) i None) ids))"
  have 1: "getPost_posts getThreads removeNuked postToHtml ids = Inr (map postToHtml ?found)"
    using assms by (simp add: getPost_posts_def bindE_def Let_def)
  have 2: "map postId ?found = filter (\<lambda>i. i \<in> postId ` set (removeNuked threadPosts)) ids"
    by (rule found_ids)
  have 3: "subseq (map postId ?found) ids" unfolding 2 by simp
  have 4: "set ?found \<subseteq> set (removeNuked threadPosts)" by (rule found_posts)
  from 1 2 3 4 show ?thesis by (intro exI conjI)
qed

lemma removeNukedSubthreads_exampleThread:
  "removeNukedSubthreads exampleThread
     = [examplePost 1 None {}, examplePost 2 (Some 1) {Nuked}, examplePost 4 (Some 1) {}]"
  by (simp add: removeNukedSubthreads_def exampleThread_def examplePost_def)

theorem getPost_posts_requested_order_witness:
  "getPost_posts (\<lambda>ids. Inr exampleThread) removeNukedSubthreads postId [4, 9, 3, 1] = Inr [4, 1]
   \<and> subseq [4 :: int, 1] [4, 9, 3, 1]"
proof -
  have g: "(\<lambda>ids :: int list. (Inr exampleThread :: ApiError + Post list)) [4, 9, 3, 1] = Inr exampleThread"
    by simp
  have f: "filter (\<lambda>i. i \<in> postId ` set (removeNukedSubthreads exampleThread)) [4, 9, 3, 1] = [4, 1]"
    unfolding removeNukedSubthreads_exampleThread by (simp add: examplePost_def)
  from getPost_posts_requested_order[of "\<lambda>ids. Inr exampleThread" "[4, 9, 3, 1]" exampleThread
      removeNukedSubthreads postId, OF g]
  show ?thesis unfolding f by (elim exE conjE) simp
qed

section \<open>Pruning nuked subthreads\<close>

lemma ancestor_parent:
  "ancestor posts a p \<Longrightarrow>
     \<exists>q \<in> set posts. parentId p = Some (postId q) \<and> (a = q \<or> ancestor posts a q)"
  by (induction rule: ancestor.induct) auto

lemma underNuked_iff:
  "underNuked posts p \<longleftrightarrow>
     (\<exists>q \<in> set posts. parentId p = Some (postId q)
        \<and> (Nuked \<in> moderationFlags q \<or> underNuked posts q))"
proof
  assume "underNuked posts p"
  then obtain a where a: "ancestor posts a p" and n: "Nuked \<in> moderationFlags a"
    by (auto simp: underNuked_def)
  from ancestor_parent[OF a] obtain q where q: "q \<in> set posts" "parentId p = Some (postId q)"
    and d: "a = q \<or> ancestor posts a q" by blast
  from d n have "Nuked \<in> moderationFlags q \<or> underNuked posts q"
    by (auto simp: underNuked_def)
  with q show "\<exists>q \<in> set posts. parentId p = Some (postId q)
        \<and> (Nuked \<in> moderationFlags q \<or> underNuked posts q)" by blast
next
  assume "\<exists>q \<in> set posts. parentId p = Some (postId q)
        \<and> (Nuked \<in> moderationFlags q \<or> underNuked posts q)"
  then obtain q where q: "q \<in> set posts" "parentId p = Some (postId q)"
    and d: "Nuked \<in> moderationFlags q \<or> underNuked posts q" by blast
  from d show "underNuked posts p"
  proof
    assume "Nuked \<in> moderationFlags q"
    with ancestor.parent[OF q] show ?thesis by (auto simp: underNuked_def)
  next
    assume "underNuked posts q"
    then obtain a where "ancestor posts a q" "Nuked \<in> moderationFlags a"
      by (auto simp: underNuked_def)
    with ancestor.grand[OF _ q] show ?thesis by (auto simp: underNuked_def)
  qed
qed

lemma parentsFirst_append: "parentsFirst (xs @ ys) \<Longrightarrow> parentsFirst ys"
  by (induction xs) auto

lemma pruneWalk_filter:
  assumes "parentsFirst (pre @ ps)"
    and "hidden = postId ` {q \<in> set pre. Nuked \<in> moderationFlags q \<or> underNuked (pre @ ps) q}"
  shows "pruneWalk hidden ps = filter (\<lambda>p. \<not> underNuked (pre @ ps) p) ps"
  using assms
proof (induction ps arbitrary: pre hidden)
  case Nil
  show ?case by simp
next
  case (Cons p ps)
  let ?all = "pre @ p # ps"
  let ?hb = "\<lambda>q. Nuked \<in> moderationFlags q \<or> underNuked ?all q"
  from parentsFirst_append[OF Cons.prems(1)]
  have later: "\<forall>q \<in> set (p # ps). parentId p \<noteq> Some (postId q)"
    by (simp add: list_all_iff)
  have under: "underNuked ?all p \<longleftrightarrow> (\<exists>parent. parentId p = Some parent \<and> parent \<in> hidden)"
  proof -
    have "underNuked ?all p \<longleftrightarrow> (\<exists>q \<in> set ?all. parentId p = Some (postId q) \<and> ?hb q)"
      by (rule underNuked_iff)
    also have "\<dots> \<longleftrightarrow> (\<exists>q \<in> set pre. parentId p = Some (postId q) \<and> ?hb q)"
      using later by auto
    also have "\<dots> \<longleftrightarrow> (\<exists>parent. parentId p = Some parent \<and> parent \<in> hidden)"
      unfolding Cons.prems(2) by auto
    finally show ?thesis .
  qed
  let ?hidden' = "if ?hb p then insert (postId p) hidden else hidden"
  have pf': "parentsFirst ((pre @ [p]) @ ps)" using Cons.prems(1) by simp
  have h': "?hidden' = postId ` {q \<in> set (pre @ [p]). Nuked \<in> moderationFlags q
                \<or> underNuked ((pre @ [p]) @ ps) q}"
    unfolding Cons.prems(2) by auto
  have ih: "pruneWalk ?hidden' ps = filter (\<lambda>x. \<not> underNuked ((pre @ [p]) @ ps) x) ps"
    by (rule Cons.IH[OF pf' h'])
  have step: "pruneWalk hidden (p # ps)
      = (if underNuked ?all p then pruneWalk ?hidden' ps else p # pruneWalk ?hidden' ps)"
    using under by (auto split: option.splits)
  show ?case unfolding step ih by simp
qed


text \<open>
  C2. For posts given parents first, \<open>removeNukedSubthreads\<close> keeps, in the order given,
  exactly the posts that have no ancestor (other than themselves) carrying \<open>Nuked\<close>: a post
  carrying \<open>Nuked\<close> is kept unless it is itself under a nuked post, every descendant of a
  nuked post is dropped whatever its own flags, and the other branches are untouched. For
  the thread \<open>A\<close> (root), \<open>B\<close> (child of \<open>A\<close>, nuked), \<open>C\<close> (child of \<open>B\<close>), \<open>D\<close> (child of
  \<open>A\<close>) the result is \<open>A\<close>, \<open>B\<close>, \<open>D\<close>.
\<close>

theorem removeNukedSubthreads_keeps:
  "(parentsFirst posts \<longrightarrow>
      removeNukedSubthreads posts = filter (\<lambda>p. \<not> underNuked posts p) posts)
   \<and> removeNukedSubthreads exampleThread
       = [examplePost 1 None {}, examplePost 2 (Some 1) {Nuked}, examplePost 4 (Some 1) {}]"
proof
  show "parentsFirst posts \<longrightarrow>
      removeNukedSubthreads posts = filter (\<lambda>p. \<not> underNuked posts p) posts"
  proof
    assume "parentsFirst posts"
    then have "parentsFirst ([] @ posts)" by simp
    from pruneWalk_filter[OF this, of "{}"] show
      "removeNukedSubthreads posts = filter (\<lambda>p. \<not> underNuked posts p) posts"
      by (simp add: removeNukedSubthreads_def)
  qed
  show "removeNukedSubthreads exampleThread
       = [examplePost 1 None {}, examplePost 2 (Some 1) {Nuked}, examplePost 4 (Some 1) {}]"
    by (simp add: removeNukedSubthreads_def exampleThread_def examplePost_def)
qed


theorem removeNukedSubthreads_keeps_witness:
  "parentsFirst exampleThread
   \<and> filter (\<lambda>p. \<not> underNuked exampleThread p) exampleThread
       = [examplePost 1 None {}, examplePost 2 (Some 1) {Nuked}, examplePost 4 (Some 1) {}]"
proof -
  have pf: "parentsFirst exampleThread"
    by (simp add: exampleThread_def examplePost_def)
  note t = removeNukedSubthreads_keeps[of exampleThread]
  from t[THEN conjunct1, rule_format, OF pf] t[THEN conjunct2]
  have "filter (\<lambda>p. \<not> underNuked exampleThread p) exampleThread
       = [examplePost 1 None {}, examplePost 2 (Some 1) {Nuked}, examplePost 4 (Some 1) {}]"
    by simp
  with pf show ?thesis by (rule conjI)
qed

section \<open>The event log\<close>

lemma appendAll_snoc:
  "appendAll L (kps @ [(k, p)]) lg = snd (append_log L k p (appendAll L kps lg))"
  by (simp add: appendAll_def)

lemma tl_upto: "i \<le> j \<Longrightarrow> tl [i..j] = [i + 1..j]"
  by (simp add: upto_rec1)

lemma upto_snoc: "i \<le> j + 1 \<Longrightarrow> [i..j] @ [j + 1] = [i..j + 1]"
  by (simp add: upto_rec2)

lemma append_log_step:
  assumes ids: "map eventId (entries lg) = [lastId lg - int (length (entries lg)) + 1 .. lastId lg]"
    and len: "length (entries lg) \<le> L"
  shows "lastId (snd (append_log L k p lg)) = lastId lg + 1"
    and "length (entries (snd (append_log L k p lg))) = min L (length (entries lg) + 1)"
    and "map eventId (entries (snd (append_log L k p lg)))
          = [lastId lg + 1 - int (length (entries (snd (append_log L k p lg)))) + 1 .. lastId lg + 1]"
proof -
  let ?e = "\<lparr>eventId = lastId lg + 1, kind = k, payload = p\<rparr>"
  let ?n = "length (entries lg)"
  show "lastId (snd (append_log L k p lg)) = lastId lg + 1"
    by (simp add: append_log_def evict_def Let_def)
  show "length (entries (snd (append_log L k p lg))) = min L (length (entries lg) + 1)"
    using len by (simp add: append_log_def evict_def Let_def)
  show "map eventId (entries (snd (append_log L k p lg)))
          = [lastId lg + 1 - int (length (entries (snd (append_log L k p lg)))) + 1 .. lastId lg + 1]"
  proof (cases "?n < L")
    case True
    then have "entries (snd (append_log L k p lg)) = entries lg @ [?e]"
      by (simp add: append_log_def evict_def Let_def)
    moreover have "[lastId lg - int ?n + 1 .. lastId lg] @ [lastId lg + 1] = [lastId lg - int ?n + 1 .. lastId lg + 1]"
      by (rule upto_snoc) simp
    ultimately show ?thesis using ids by (simp add: algebra_simps)
  next
    case False
    with len have n: "?n = L" by simp
    then have en: "entries (snd (append_log L k p lg)) = tl (entries lg @ [?e])"
      by (simp add: append_log_def evict_def Let_def)
    have "map eventId (tl (entries lg @ [?e])) = tl (map eventId (entries lg) @ [lastId lg + 1])"
      by (simp add: map_tl)
    also have "\<dots> = tl ([lastId lg - int ?n + 1 .. lastId lg] @ [lastId lg + 1])"
      using ids by simp
    also have "[lastId lg - int ?n + 1 .. lastId lg] @ [lastId lg + 1] = [lastId lg - int ?n + 1 .. lastId lg + 1]"
      by (rule upto_snoc) simp
    also have "tl [lastId lg - int ?n + 1 .. lastId lg + 1] = [lastId lg - int ?n + 1 + 1 .. lastId lg + 1]"
      by (rule tl_upto) simp
    finally have "map eventId (entries (snd (append_log L k p lg))) = [lastId lg - int ?n + 1 + 1 .. lastId lg + 1]"
      unfolding en .
    moreover have "length (entries (snd (append_log L k p lg))) = ?n"
      unfolding en using n by simp
    ultimately show ?thesis by (simp add: algebra_simps)
  qed
qed

lemma appendAll_invariant:
  "lastId (appendAll L kps emptyLog) = int (length kps)
   \<and> length (entries (appendAll L kps emptyLog)) = min L (length kps)
   \<and> map eventId (entries (appendAll L kps emptyLog))
       = [lastId (appendAll L kps emptyLog) - int (length (entries (appendAll L kps emptyLog))) + 1
            .. lastId (appendAll L kps emptyLog)]"
proof (induction kps rule: rev_induct)
  case Nil
  show ?case by (simp add: appendAll_def emptyLog_def)
next
  case (snoc kp kps)
  obtain k p where kp: "kp = (k, p)" by (cases kp)
  let ?lg = "appendAll L kps emptyLog"
  from snoc have ids: "map eventId (entries ?lg) = [lastId ?lg - int (length (entries ?lg)) + 1 .. lastId ?lg]"
    and len: "length (entries ?lg) \<le> L" and last: "lastId ?lg = int (length kps)"
    and n: "length (entries ?lg) = min L (length kps)"
    by simp_all
  note s = append_log_step[OF ids len, of k p]
  show ?case unfolding kp appendAll_snoc using s last n by (simp add: min_def)
qed

lemma strict_sorted_upto: "sorted_wrt (<) [i..j]"
  by (simp add: strict_sorted_iff)

lemma filter_sorted_dropWhile:
  "sorted (map f xs) \<Longrightarrow> filter (\<lambda>x. c < f x) xs = dropWhile (\<lambda>x. f x \<le> (c :: int)) xs"
proof (induction xs)
  case Nil
  then show ?case by simp
next
  case (Cons x xs)
  show ?case
  proof (cases "f x \<le> c")
    case True
    with Cons show ?thesis by simp
  next
    case False
    with Cons.prems have "\<forall>y \<in> set xs. c < f y" by auto
    then have "filter (\<lambda>x. c < f x) xs = xs" by simp
    with False show ?thesis by simp
  qed
qed

lemma filter_upto_above: "filter (\<lambda>i. c < i) [a..b] = [max (c + 1) a..b]"
proof (rule sorted_distinct_set_unique)
  show "sorted (filter (\<lambda>i. c < i) [a..b])" by (rule sorted_wrt_filter) simp
  show "distinct (filter (\<lambda>i. c < i) [a..b])" by simp
  show "sorted [max (c + 1) a..b]" by simp
  show "distinct [max (c + 1) a..b]" by simp
  show "set (filter (\<lambda>i. c < i) [a..b]) = set [max (c + 1) a..b]" by auto
qed

lemma eventsSince_ids:
  "map eventId (eventsSince c lg) = filter (\<lambda>i. c < i) (map eventId (entries lg))"
  by (simp add: eventsSince_def filter_map comp_def)


lemma example_log:
  "appendAll 2 [(''post'', ''a''), (''post'', ''b''), (''nuke'', ''c'')] emptyLog
     = \<lparr>entries = [\<lparr>eventId = 2, kind = ''post'', payload = ''b''\<rparr>,
                   \<lparr>eventId = 3, kind = ''nuke'', payload = ''c''\<rparr>],
        lastId = 3\<rparr>"
  by (simp add: appendAll_def append_log_def evict_def emptyLog_def Let_def)


text \<open>
  C3. For the log after any sequence of appends to the empty log, with any capacity, and
  for every cursor (in particular every cursor up to \<open>latestId\<close>): \<open>eventsSince\<close> gives exactly
  the retained events with an id above the cursor; their ids ascend strictly, so no event
  is given twice; they are the tail of the retained history after the events with an id up
  to the cursor, so none is left out in between; and their ids are the consecutive numbers
  from the cursor's successor, or from the oldest retained id if that is larger, up to
  \<open>latestId\<close>.
\<close>

theorem eventsSince_exact:
  assumes "lg = appendAll L kps emptyLog"
  shows "set (eventsSince c lg) = {e \<in> set (entries lg). c < eventId e}
     \<and> sorted_wrt (<) (map eventId (eventsSince c lg))
     \<and> distinct (eventsSince c lg)
     \<and> (\<exists>older. entries lg = older @ eventsSince c lg \<and> (\<forall>e \<in> set older. eventId e \<le> c))
     \<and> map eventId (eventsSince c lg)
          = [max (c + 1) (latestId lg - int (length (entries lg)) + 1) .. latestId lg]"
proof -
  from appendAll_invariant[of L kps] assms
  have ids: "map eventId (entries lg) = [lastId lg - int (length (entries lg)) + 1 .. lastId lg]"
    by simp
  have 1: "set (eventsSince c lg) = {e \<in> set (entries lg). c < eventId e}"
    by (auto simp: eventsSince_def)
  have 5: "map eventId (eventsSince c lg)
          = [max (c + 1) (latestId lg - int (length (entries lg)) + 1) .. latestId lg]"
    unfolding eventsSince_ids ids latestId_def by (rule filter_upto_above)
  have 2: "sorted_wrt (<) (map eventId (eventsSince c lg))"
    unfolding 5 by (rule strict_sorted_upto)
  then have "distinct (map eventId (eventsSince c lg))" by (simp add: strict_sorted_iff)
  then have 3: "distinct (eventsSince c lg)" by (simp add: distinct_map)
  have "sorted (map eventId (entries lg))" unfolding ids by simp
  then have dw: "eventsSince c lg = dropWhile (\<lambda>e. eventId e \<le> c) (entries lg)"
    unfolding eventsSince_def by (rule filter_sorted_dropWhile)
  have "entries lg = takeWhile (\<lambda>e. eventId e \<le> c) (entries lg) @ eventsSince c lg"
    unfolding dw by simp
  moreover have "\<forall>e \<in> set (takeWhile (\<lambda>e. eventId e \<le> c) (entries lg)). eventId e \<le> c"
    by (auto dest: set_takeWhileD)
  ultimately have 4: "\<exists>older. entries lg = older @ eventsSince c lg \<and> (\<forall>e \<in> set older. eventId e \<le> c)"
    by blast
  from 1 2 3 4 5 show ?thesis by (intro conjI)
qed


theorem eventsSince_exact_witness:
  "eventsSince 2 (appendAll 2 [(''post'', ''a''), (''post'', ''b''), (''nuke'', ''c'')] emptyLog)
     = [\<lparr>eventId = 3, kind = ''nuke'', payload = ''c''\<rparr>]
   \<and> map eventId
        (eventsSince 0 (appendAll 2 [(''post'', ''a''), (''post'', ''b''), (''nuke'', ''c'')] emptyLog))
     = [2, 3]"
proof -
  let ?lg = "appendAll 2 [(''post'', ''a''), (''post'', ''b''), (''nuke'', ''c'')] emptyLog"
  have r: "?lg = appendAll 2 [(''post'', ''a''), (''post'', ''b''), (''nuke'', ''c'')] emptyLog" by (rule refl)
  have a: "eventsSince 2 ?lg = [\<lparr>eventId = 3, kind = ''nuke'', payload = ''c''\<rparr>]"
    unfolding example_log by (simp add: eventsSince_def)
  from eventsSince_exact[OF r, of 0, THEN conjunct2, THEN conjunct2, THEN conjunct2, THEN conjunct2]
  have "map eventId (eventsSince 0 ?lg)
          = [max (0 + 1) (latestId ?lg - int (length (entries ?lg)) + 1) .. latestId ?lg]" .
  also have "\<dots> = [2, 3]"
    unfolding example_log by (simp add: latestId_def upto_rec1)
  finally show ?thesis using a by simp
qed


text \<open>
  C7. For the log after any sequence of appends to the empty log, with a capacity \<open>L\<close> of at
  least 1: the ids of the retained events ascend strictly; at most \<open>L\<close> events are retained;
  an append to a log that holds \<open>L\<close> events drops exactly the oldest one and puts the new
  event last, an append to a log that holds fewer drops nothing; after \<open>L + 1\<close> appends the
  log holds \<open>L\<close> events, those with the ids 2 to \<open>L + 1\<close>; eviction leaves \<open>latestId\<close> as it
  is, for any log; an append raises \<open>latestId\<close> by one to the id of the new event, evicting
  or not; and \<open>latestId\<close> is the id of the newest retained event.
\<close>

theorem eventLog_capacity_eviction:
  assumes "lg = appendAll L kps emptyLog" and "0 < L"
  shows "sorted_wrt (<) (map eventId (entries lg))
     \<and> length (entries lg) \<le> L
     \<and> (length (entries lg) = L \<longrightarrow>
           entries (snd (append_log L k p lg)) = tl (entries lg) @ [fst (append_log L k p lg)])
     \<and> (length (entries lg) < L \<longrightarrow>
           entries (snd (append_log L k p lg)) = entries lg @ [fst (append_log L k p lg)])
     \<and> (length kps = L + 1 \<longrightarrow>
           length (entries lg) = L \<and> map eventId (entries lg) = [2 .. int L + 1])
     \<and> latestId (evict L lg') = latestId lg'
     \<and> latestId (snd (append_log L k p lg)) = latestId lg + 1
     \<and> eventId (fst (append_log L k p lg)) = latestId lg + 1
     \<and> (entries lg \<noteq> [] \<longrightarrow> eventId (last (entries lg)) = latestId lg)"
proof -
  from appendAll_invariant[of L kps] assms(1)
  have ids: "map eventId (entries lg) = [lastId lg - int (length (entries lg)) + 1 .. lastId lg]"
    and len: "length (entries lg) = min L (length kps)"
    and lst: "lastId lg = int (length kps)"
    by simp_all
  have 1: "sorted_wrt (<) (map eventId (entries lg))"
    unfolding ids by (rule strict_sorted_upto)
  have 2: "length (entries lg) \<le> L" using len by simp
  have 3: "length (entries lg) = L \<longrightarrow>
           entries (snd (append_log L k p lg)) = tl (entries lg) @ [fst (append_log L k p lg)]"
    using assms(2) by (auto simp: append_log_def evict_def Let_def)
  have 4: "length (entries lg) < L \<longrightarrow>
           entries (snd (append_log L k p lg)) = entries lg @ [fst (append_log L k p lg)]"
    by (simp add: append_log_def evict_def Let_def)
  have 5: "length kps = L + 1 \<longrightarrow>
           length (entries lg) = L \<and> map eventId (entries lg) = [2 .. int L + 1]"
  proof
    assume n: "length kps = L + 1"
    with len have l: "length (entries lg) = L" by simp
    from lst n have "lastId lg = int L + 1" by simp
    with ids l have "map eventId (entries lg) = [2 .. int L + 1]" by simp
    with l show "length (entries lg) = L \<and> map eventId (entries lg) = [2 .. int L + 1]" by simp
  qed
  have 6: "latestId (evict L lg') = latestId lg'" by (simp add: latestId_def evict_def)
  have 7: "latestId (snd (append_log L k p lg)) = latestId lg + 1"
    by (simp add: latestId_def append_log_def evict_def Let_def)
  have 8: "eventId (fst (append_log L k p lg)) = latestId lg + 1"
    by (simp add: latestId_def append_log_def Let_def)
  have 9: "entries lg \<noteq> [] \<longrightarrow> eventId (last (entries lg)) = latestId lg"
  proof
    assume ne: "entries lg \<noteq> []"
    then have "eventId (last (entries lg)) = last (map eventId (entries lg))"
      by (simp add: last_map)
    also have "\<dots> = last [lastId lg - int (length (entries lg)) + 1 .. lastId lg]"
      using ids by simp
    also have "\<dots> = lastId lg"
    proof -
      from ne have "0 < length (entries lg)" by simp
      then have "lastId lg - int (length (entries lg)) + 1 \<le> lastId lg" by linarith
      then show ?thesis by (simp add: upto_rec2)
    qed
    finally show "eventId (last (entries lg)) = latestId lg" by (simp add: latestId_def)
  qed
  from 1 2 3 4 5 6 7 8 9 show ?thesis by (intro conjI)
qed

theorem eventLog_capacity_eviction_witness:
  "0 < (2 :: nat)
   \<and> length [(''post'', ''a''), (''post'', ''b''), (''nuke'', ''c'')] = 2 + 1
   \<and> length (entries (appendAll 2 [(''post'', ''a''), (''post'', ''b''), (''nuke'', ''c'')] emptyLog)) = 2
   \<and> map eventId (entries (appendAll 2 [(''post'', ''a''), (''post'', ''b''), (''nuke'', ''c'')] emptyLog))
       = [2, 3]
   \<and> latestId (appendAll 2 [(''post'', ''a''), (''post'', ''b''), (''nuke'', ''c'')] emptyLog) = 3"
proof -
  let ?kps = "[(''post'', ''a''), (''post'', ''b''), (''nuke'', ''c'')]"
  let ?lg = "appendAll 2 ?kps emptyLog"
  have r: "?lg = appendAll 2 ?kps emptyLog" by (rule refl)
  have p: "0 < (2 :: nat)" by simp
  have n: "length ?kps = 2 + 1" by simp
  note t = eventLog_capacity_eviction[OF r p]
  from t[THEN conjunct2, THEN conjunct2, THEN conjunct2, THEN conjunct2, THEN conjunct1]
  have "length ?kps = 2 + 1 \<longrightarrow>
      length (entries ?lg) = 2 \<and> map eventId (entries ?lg) = [2 .. int 2 + 1]" .
  with n have l: "length (entries ?lg) = 2" and m: "map eventId (entries ?lg) = [2 .. int 2 + 1]"
    by simp_all
  have u: "[2 .. int 2 + 1] = [2, 3]" by (simp add: upto_rec1)
  have "latestId ?lg = 3" unfolding example_log by (simp add: latestId_def)
  with p n l m[unfolded u] show ?thesis by (intro conjI)
qed


section \<open>The dispatcher\<close>

lemma retained_after_append:
  assumes "0 < L"
  shows "fst (append_log L k p lg) \<in> set (entries (snd (append_log L k p lg)))"
proof -
  let ?e = "\<lparr>eventId = lastId lg + 1, kind = k, payload = p\<rparr>"
  have "?e \<in> set (tl (entries lg @ [?e]))" if "L < length (entries lg @ [?e])"
  proof -
    from that assms have "entries lg \<noteq> []" by auto
    then have "tl (entries lg @ [?e]) = tl (entries lg) @ [?e]" by simp
    then show ?thesis by simp
  qed
  then show ?thesis by (auto simp: append_log_def evict_def Let_def)
qed


text \<open>
  C1. \<open>waitForEvent\<close> looks at the history first: when \<open>eventsSince\<close> of the cursor is not
  empty it resolves with exactly these events and leaves the dispatcher as it is, so no
  waiter is registered; it registers a waiter only when the history past the cursor is
  empty. Hence, with a capacity of at least 1, an event published after the caller's
  previous poll (whose cursor is at most the \<open>latestId\<close> before the publish) is among the
  events the next \<open>waitForEvent\<close> resolves with at once.
\<close>

theorem waitForEvent_history_first:
  "(eventsSince c (log st) \<noteq> [] \<longrightarrow>
      waitForEvent c h now st = (Resolved (eventsSince c (log st)), st))
   \<and> (waitForEvent c h now st = (Suspended, st') \<longrightarrow>
      eventsSince c (log st) = [] \<and> log st' = log st
      \<and> waiters st' = waiters st @ [\<lparr>cursor = c, handle = h, registeredAt = now\<rparr>])
   \<and> (0 < L \<and> c \<le> latestId (log st) \<and> publish L k p st = (e, resolved, st1) \<longrightarrow>
      (\<exists>history. waitForEvent c h now st1 = (Resolved history, st1) \<and> e \<in> set history))"
proof -
  have 1: "eventsSince c (log st) \<noteq> [] \<longrightarrow>
      waitForEvent c h now st = (Resolved (eventsSince c (log st)), st)"
    by (simp add: waitForEvent_def Let_def)
  have 2: "waitForEvent c h now st = (Suspended, st') \<longrightarrow>
      eventsSince c (log st) = [] \<and> log st' = log st
      \<and> waiters st' = waiters st @ [\<lparr>cursor = c, handle = h, registeredAt = now\<rparr>]"
    by (auto simp: waitForEvent_def Let_def split: if_splits)
  have 3: "0 < L \<and> c \<le> latestId (log st) \<and> publish L k p st = (e, resolved, st1) \<longrightarrow>
      (\<exists>history. waitForEvent c h now st1 = (Resolved history, st1) \<and> e \<in> set history)"
  proof
    assume a: "0 < L \<and> c \<le> latestId (log st) \<and> publish L k p st = (e, resolved, st1)"
    then have L: "0 < L" and c: "c \<le> latestId (log st)" and pb: "publish L k p st = (e, resolved, st1)"
      by simp_all
    from pb have e: "e = fst (append_log L k p (log st))"
      and l1: "log st1 = snd (append_log L k p (log st))"
      by (auto simp: publish_def split: prod.splits)
    from retained_after_append[OF L, of k p "log st"] e l1 have "e \<in> set (entries (log st1))" by simp
    moreover have "eventId e = latestId (log st) + 1"
      unfolding e by (simp add: append_log_def latestId_def Let_def)
    with c have "c < eventId e" by simp
    ultimately have m: "e \<in> set (eventsSince c (log st1))" by (simp add: eventsSince_def)
    then have "eventsSince c (log st1) \<noteq> []" by auto
    then have "waitForEvent c h now st1 = (Resolved (eventsSince c (log st1)), st1)"
      by (simp add: waitForEvent_def Let_def)
    with m show "\<exists>history. waitForEvent c h now st1 = (Resolved history, st1) \<and> e \<in> set history"
      by blast
  qed
  from 1 2 3 show ?thesis by (intro conjI)
qed

theorem waitForEvent_history_first_witness:
  "publish 5 ''post'' ''P1'' \<lparr>log = emptyLog, waiters = []\<rparr>
     = (\<lparr>eventId = 1, kind = ''post'', payload = ''P1''\<rparr>, [],
        \<lparr>log = \<lparr>entries = [\<lparr>eventId = 1, kind = ''post'', payload = ''P1''\<rparr>], lastId = 1\<rparr>,
         waiters = []\<rparr>)
   \<and> waitForEvent 0 7 100
        \<lparr>log = \<lparr>entries = [\<lparr>eventId = 1, kind = ''post'', payload = ''P1''\<rparr>], lastId = 1\<rparr>,
         waiters = []\<rparr>
     = (Resolved [\<lparr>eventId = 1, kind = ''post'', payload = ''P1''\<rparr>],
        \<lparr>log = \<lparr>entries = [\<lparr>eventId = 1, kind = ''post'', payload = ''P1''\<rparr>], lastId = 1\<rparr>,
         waiters = []\<rparr>)"
proof -
  let ?e = "\<lparr>eventId = 1, kind = ''post'', payload = ''P1''\<rparr>"
  let ?st1 = "\<lparr>log = \<lparr>entries = [?e], lastId = 1\<rparr>, waiters = []\<rparr>"
  have pb: "publish 5 ''post'' ''P1'' \<lparr>log = emptyLog, waiters = []\<rparr> = (?e, [], ?st1)"
    by (simp add: publish_def append_log_def evict_def emptyLog_def Let_def)
  have h: "eventsSince 0 (log ?st1) = [?e]" by (simp add: eventsSince_def)
  then have ne: "eventsSince 0 (log ?st1) \<noteq> []" by simp
  from waitForEvent_history_first[of 0 ?st1 7 100, THEN conjunct1, rule_format, OF ne]
  have "waitForEvent 0 7 100 ?st1 = (Resolved [?e], ?st1)" unfolding h .
  with pb show ?thesis by (rule conjI)
qed

end
